theory Spec2Isabelle
  imports Main "HOL-Library.Word" "HOL-Library.Multiset"
begin

section \<open>JavaScript strings\<close>

text \<open>
  A JavaScript string is a sequence of UTF-16 code units; \<open>length\<close>, \<open>substr\<close>,
  \<open>indexOf\<close>, \<open>startsWith\<close> and \<open>replace\<close> all count code units. ASCII literals
  of the source are written \<open>str ''...''\<close>.
\<close>

type_synonym jsstring = "16 word list"

definition str :: "string \<Rightarrow> jsstring" where
  "str s = map of_char s"

text \<open>The three non-ASCII code units of the labels: U+2026, U+201C and U+201D.\<close>

definition ellipsis :: "16 word" where
  "ellipsis = 0x2026"

definition ldquo :: "16 word" where
  "ldquo = 0x201C"

definition rdquo :: "16 word" where
  "rdquo = 0x201D"

text \<open>A string is truthy when it is not empty.\<close>

definition truthy :: "jsstring \<Rightarrow> bool" where
  "truthy s = (s \<noteq> [])"

text \<open>\<open>a || b\<close> on strings: the left operand when it is truthy, else the right one.\<close>

definition js_or :: "jsstring \<Rightarrow> jsstring \<Rightarrow> jsstring" where
  "js_or a b = (if truthy a then a else b)"

definition startsWith :: "jsstring \<Rightarrow> jsstring \<Rightarrow> bool" where
  "startsWith s p = (take (length p) s = p)"

text \<open>\<open>s.indexOf(p)\<close>: the first position where \<open>p\<close> occurs in \<open>s\<close>, or \<open>-1\<close>.\<close>

fun indexOfFrom :: "int \<Rightarrow> jsstring \<Rightarrow> jsstring \<Rightarrow> int" where
  "indexOfFrom i [] p = (if p = [] then i else - 1)"
| "indexOfFrom i (c # cs) p =
     (if startsWith (c # cs) p then i else indexOfFrom (i + 1) cs p)"

definition indexOf :: "jsstring \<Rightarrow> jsstring \<Rightarrow> int" where
  "indexOf s p = indexOfFrom 0 s p"

text \<open>
  \<open>s.replace(p, r)\<close> with a string pattern: only the first occurrence of \<open>p\<close> is
  replaced. (The replacement patterns starting with a dollar sign do not arise: the
  only replacement the source uses is the empty string.)
\<close>

fun replace :: "jsstring \<Rightarrow> jsstring \<Rightarrow> jsstring \<Rightarrow> jsstring" where
  "replace [] p r = (if p = [] then r else [])"
| "replace (c # cs) p r =
     (if startsWith (c # cs) p then r @ drop (length p) (c # cs)
      else c # replace cs p r)"

text \<open>\<open>s.substr(start, len)\<close> for a start and a length that are not negative.\<close>

definition substr :: "jsstring \<Rightarrow> nat \<Rightarrow> nat \<Rightarrow> jsstring" where
  "substr s start len = take len (drop start s)"

section \<open>Menu nodes of extensions, context-menu parameters, menu items\<close>

text \<open>
  Modelled from the spec: the class \<open>CRExtensionRTContextMenu\<close> is imported from
  \<open>shared/Models/CRExtensionRT\<close>, which is not among the sources. The spec gives an
  Extension Menu Node the fields below; the service reads \<open>id\<close>, \<open>parentId\<close>,
  \<open>title\<close>, \<open>type\<close>, \<open>enabled\<close>, \<open>checked\<close> and \<open>contexts\<close>.
\<close>

record menu =
  menu_id :: jsstring
  parentId :: "jsstring option"
  title :: jsstring
  menu_type :: jsstring
  menu_enabled :: bool
  menu_checked :: bool
  contexts :: "jsstring list"

text \<open>
  Modelled from the spec: the constants \<open>CRExtensionRTContextMenu.CONTEXT_TYPES\<close> and
  \<open>CRExtensionRTContextMenu.ITEM_TYPES\<close> of that class, as the markers and kinds the
  spec names.
\<close>

definition CONTEXT_TYPES_ALL :: jsstring where
  "CONTEXT_TYPES_ALL = str ''all''"

definition CONTEXT_TYPES_PAGE :: jsstring where
  "CONTEXT_TYPES_PAGE = str ''page''"

definition CONTEXT_TYPES_EDITABLE :: jsstring where
  "CONTEXT_TYPES_EDITABLE = str ''editable''"

definition ITEM_TYPES_NORMAL :: jsstring where
  "ITEM_TYPES_NORMAL = str ''normal''"

definition ITEM_TYPES_CHECKBOX :: jsstring where
  "ITEM_TYPES_CHECKBOX = str ''checkbox''"

definition ITEM_TYPES_RADIO :: jsstring where
  "ITEM_TYPES_RADIO = str ''radio''"

definition ITEM_TYPES_SEPERATOR :: jsstring where
  "ITEM_TYPES_SEPERATOR = str ''separator''"

text \<open>The fields of the context-menu parameters that the modelled functions read.\<close>

record params =
  linkURL :: jsstring
  selectionText :: jsstring
  isEditable :: bool
  misspelledWord :: jsstring
  inputFieldType :: jsstring

text \<open>
  A click handler is a closure; it is modelled by a constructor that names what the
  closure calls and carries the variables it captured.
\<close>

datatype click =
    AddUserWord jsstring
  | SearchGoogle jsstring
  | Translate jsstring
  | ExtensionOptionSelected jsstring menu params
  | AutofillReplace jsstring
  | OpenAutofillManager
  | AddAutofillPassword

datatype asset = AUTOFILL_MENU

datatype native_image =
    CreateFromPath "jsstring option"
  | CreateFromDataURL asset

text \<open>
  A menu item of a template is a JavaScript object; an absent property is \<open>None\<close>.
  Objects that the tree builder mutates live in a store, and a \<open>submenu\<close> is the list
  of the addresses of its items.
\<close>

type_synonym addr = nat

record item =
  item_id :: "jsstring option"
  label :: "jsstring option"
  item_type :: "jsstring option"
  enabled :: "bool option"
  checked :: "bool option"
  icon :: "native_image option"
  click :: "click option"
  submenu :: "addr list option"

definition empty_item :: item where
  "empty_item = \<lparr> item_id = None, label = None, item_type = None, enabled = None,
     checked = None, icon = None, click = None, submenu = None \<rparr>"

text \<open>The object literal \<open>{ type: 'separator' }\<close>.\<close>

definition separator :: item where
  "separator = empty_item \<lparr> item_type := Some (str ''separator'') \<rparr>"

definition isSeparator :: "item \<Rightarrow> bool" where
  "isSeparator it = (item_type it = Some (str ''separator''))"

section \<open>The lookup and search section\<close>

definition renderLookupAndSearchSection :: "params \<Rightarrow> item list" where
  "renderLookupAndSearchSection ps =
     (if truthy (selectionText ps) then
        (let template1 =
               (if isEditable ps \<and> truthy (misspelledWord ps)
                then [empty_item \<lparr>
                        label := Some (str ''Add '' @ [ldquo] @ misspelledWord ps @ [rdquo]
                                       @ str '' to Dictionary''),
                        click := Some (AddUserWord (misspelledWord ps)) \<rparr>]
                else []);
             displayText =
               (if length (selectionText ps) \<ge> 50
                then substr (selectionText ps) 0 47 @ [ellipsis]
                else selectionText ps)
         in template1 @
            [empty_item \<lparr>
               label := Some (str ''Search Google for '' @ [ldquo] @ displayText @ [rdquo]),
               click := Some (SearchGoogle (selectionText ps)) \<rparr>,
             empty_item \<lparr>
               label := Some (str ''Translate '' @ [ldquo] @ displayText @ [rdquo]),
               click := Some (Translate (selectionText ps)) \<rparr>])
      else [])"

section \<open>The click handler of Copy Link Address\<close>

text \<open>
  The closure of the item labelled Copy Link Address in \<open>renderURLSection\<close>; the
  clipboard is the state it writes.
\<close>

type_synonym clipboard = jsstring

definition writeText :: "jsstring \<Rightarrow> clipboard \<Rightarrow> clipboard" where
  "writeText text cb = text"

definition copyLinkAddress_click :: "params \<Rightarrow> clipboard \<Rightarrow> clipboard" where
  "copyLinkAddress_click ps cb =
     (if startsWith (linkURL ps) (str ''mailto:'') \<and> indexOf (linkURL ps) (str ''?'') = - 1
      then writeText (replace (linkURL ps) (str ''mailto:'') (str '''')) cb
      else writeText (linkURL ps) cb)"

section \<open>The section aggregator\<close>

text \<open>
  An entry of the sections list is an array of items, \<open>undefined\<close> or \<open>null\<close>.
  Reading \<open>length\<close> of \<open>undefined\<close> or \<open>null\<close> throws a TypeError; an array is
  truthy even when it is empty.
\<close>

datatype error = TypeError

datatype menu_section = Undefined | Null | Section "item list"

fun section_truthy :: "menu_section \<Rightarrow> bool" where
  "section_truthy Undefined = False"
| "section_truthy Null = False"
| "section_truthy (Section xs) = True"

fun section_length :: "menu_section \<Rightarrow> error + nat" where
  "section_length Undefined = Inl TypeError"
| "section_length Null = Inl TypeError"
| "section_length (Section xs) = Inr (length xs)"

text \<open>The items of an array; the reducer reads them only from a truthy section.\<close>

fun section_items :: "menu_section \<Rightarrow> item list" where
  "section_items (Section xs) = xs"
| "section_items Undefined = []"
| "section_items Null = []"

text \<open>
  The callback of \<open>reduce\<close>: \<open>section && section.length\<close> reads the length only of
  a truthy section, and is truthy when that length is not zero.
\<close>

definition reducer :: "item list \<Rightarrow> menu_section \<Rightarrow> error + item list" where
  "reducer acc section =
     (if section_truthy section then
        (case section_length section of
           Inl e \<Rightarrow> Inl e
         | Inr n \<Rightarrow>
             if n \<noteq> 0 then Inr (acc @ section_items section @ [separator]) else Inr acc)
      else Inr acc)"

fun reduce :: "('b \<Rightarrow> 'a \<Rightarrow> error + 'b) \<Rightarrow> 'a list \<Rightarrow> 'b \<Rightarrow> error + 'b" where
  "reduce f [] acc = Inr acc"
| "reduce f (x # xs) acc =
     (case f acc x of Inl e \<Rightarrow> Inl e | Inr acc' \<Rightarrow> reduce f xs acc')"

text \<open>\<open>xs.slice(start, end)\<close>: a negative bound counts from the end of the array.\<close>

definition slice :: "'a list \<Rightarrow> int \<Rightarrow> int \<Rightarrow> 'a list" where
  "slice xs start stop =
     (let len = int (length xs);
          k = (if start < 0 then max (len + start) 0 else min start len);
          e = (if stop < 0 then max (len + stop) 0 else min stop len)
      in take (nat (e - k)) (drop (nat k) xs))"

definition convertSectionsToTemplate :: "menu_section list \<Rightarrow> error + item list" where
  "convertSectionsToTemplate sections =
     (case reduce reducer sections [] of
        Inl e \<Rightarrow> Inl e
      | Inr acc \<Rightarrow> Inr (slice acc 0 (- 1)))"

section \<open>The autofill section and launching the menu\<close>

record credential =
  account :: jsstring
  password :: jsstring

text \<open>The first argument is what \<open>contents.getURL()\<close> returns when the function runs.\<close>

definition isAutofillPasswordField :: "jsstring \<Rightarrow> params \<Rightarrow> bool" where
  "isAutofillPasswordField url ps =
     (if inputFieldType ps \<noteq> str ''password'' then False
      else if \<not> isEditable ps then False
      else if \<not> startsWith url (str ''https://'') then False
      else True)"

definition renderAutofillSection :: "jsstring \<Rightarrow> params \<Rightarrow> credential list \<Rightarrow> menu_section" where
  "renderAutofillSection url ps credentials =
     (if \<not> isAutofillPasswordField url ps then Undefined
      else Section
        (map (\<lambda>rec. empty_item \<lparr>
                 label := Some (account rec),
                 icon := Some (CreateFromDataURL AUTOFILL_MENU),
                 click := Some (AutofillReplace (password rec)) \<rparr>) credentials
         @ [empty_item \<lparr> label := Some (str ''Manage saved passwords''),
                          click := Some OpenAutofillManager \<rparr>,
            empty_item \<lparr> label := Some (str ''Add new password''),
                          click := Some AddAutofillPassword \<rparr>]))"

text \<open>
  What the host answers when the service asks for the root contents of a contents, for
  the browser window of that root and for the Wavebox window of that browser window.
\<close>

record wavebox_window =
  rootWebContentsHasContextMenu :: bool
  rootWebContentsId :: nat

record host =
  hasRootContents :: bool
  hasBrowserWindow :: bool
  waveboxWindow :: "wavebox_window option"

text \<open>
  The promise returned by \<open>findCredentials\<close>, once settled: the callbacks of
  \<open>then\<close> and \<open>catch\<close> run only then, and the model of \<open>launchMenu\<close> below is
  what has happened once they have run.
\<close>

datatype 'a settled = Resolved 'a | Rejected

record autofill_service =
  isAvailable :: bool
  isValidAutofillUrl :: "jsstring \<Rightarrow> bool"
  findCredentials :: "jsstring \<Rightarrow> credential list settled"

datatype presentation = NoMenu | Presented "item list"

text \<open>
  \<open>presentMenu\<close> builds the menu from the template and pops it up; the model returns
  the template that is shown.
\<close>

definition presentMenu :: "menu_section list \<Rightarrow> error + presentation" where
  "presentMenu sections =
     (case convertSectionsToTemplate sections of
        Inl e \<Rightarrow> Inl e
      | Inr template \<Rightarrow> Inr (Presented template))"

text \<open>
  \<open>launchMenu\<close>. The nine synchronous sections are computed before the branch on the
  autofill service and read stores that are not among the sources (accounts, settings,
  spellchecker, extension runtime), so the list is an argument. \<open>url\<close> is what
  \<open>getURL()\<close> returns while \<open>launchMenu\<close> runs and \<open>url_later\<close> what it returns when
  the callback of \<open>then\<close> runs. An exception thrown in the callback of \<open>then\<close> rejects
  the promise that \<open>catch\<close> handles.
\<close>

definition launchMenu ::
  "host \<Rightarrow> autofill_service \<Rightarrow> jsstring \<Rightarrow> jsstring \<Rightarrow> params \<Rightarrow> menu_section list
     \<Rightarrow> error + presentation" where
  "launchMenu h autofill url url_later ps sections =
     (if \<not> hasRootContents h then Inr NoMenu
      else if \<not> hasBrowserWindow h then Inr NoMenu
      else if isAvailable autofill \<and> isValidAutofillUrl autofill url
              \<and> isAutofillPasswordField url ps then
        (case findCredentials autofill url of
           Resolved credentials \<Rightarrow>
             (case presentMenu ([renderAutofillSection url_later ps credentials] @ sections) of
                Inr shown \<Rightarrow> Inr shown
              | Inl e \<Rightarrow> presentMenu sections)
         | Rejected \<Rightarrow> presentMenu sections)
      else presentMenu sections)"

section \<open>The extension section and the tree builder\<close>

definition renderExtensionMenuItem :: "jsstring \<Rightarrow> params \<Rightarrow> menu \<Rightarrow> item option" where
  "renderExtensionMenuItem extensionId ps menuItem =
     (if menu_type menuItem = ITEM_TYPES_NORMAL then
        Some (empty_item \<lparr>
          item_id := Some (menu_id menuItem),
          label := Some (title menuItem),
          enabled := Some (menu_enabled menuItem),
          click := Some (ExtensionOptionSelected extensionId menuItem ps) \<rparr>)
      else if menu_type menuItem = ITEM_TYPES_CHECKBOX then
        Some (empty_item \<lparr>
          item_id := Some (menu_id menuItem),
          label := Some (title menuItem),
          item_type := Some (str ''checkbox''),
          checked := Some (menu_checked menuItem),
          click := Some (ExtensionOptionSelected extensionId menuItem ps) \<rparr>)
      else if menu_type menuItem = ITEM_TYPES_RADIO then
        Some (empty_item \<lparr>
          item_id := Some (menu_id menuItem),
          label := Some (title menuItem),
          item_type := Some (str ''radio''),
          checked := Some (menu_checked menuItem),
          click := Some (ExtensionOptionSelected extensionId menuItem ps) \<rparr>)
      else if menu_type menuItem = ITEM_TYPES_SEPERATOR then
        Some separator
      else None)"

text \<open>
  The state of the loop of \<open>renderExtensionMenuTree\<close>: the array \<open>root\<close>, the map
  \<open>index\<close> from a node id to the address of the item rendered for it, and the store
  of the objects. A rendered item is a new object: its address is the length of the
  store before it is added.
\<close>

record tree_state =
  root :: "addr list"
  index :: "jsstring \<rightharpoonup> addr"
  store :: "item list"

text \<open>\<open>parent.submenu || []\<close>: an array is truthy, an absent property is not.\<close>

definition submenu_or_empty :: "item \<Rightarrow> addr list" where
  "submenu_or_empty it = (case submenu it of None \<Rightarrow> [] | Some cs \<Rightarrow> cs)"

text \<open>
  \<open>menuItem.parentId && index.get(menuItem.parentId)\<close>: the address of the parent,
  when the parent id is truthy and the index has an entry for it.
\<close>

definition parent_in_index :: "tree_state \<Rightarrow> menu \<Rightarrow> addr option" where
  "parent_in_index s menuItem =
     (case parentId menuItem of
        None \<Rightarrow> None
      | Some pid \<Rightarrow> if truthy pid then index s pid else None)"

definition tree_step :: "jsstring \<Rightarrow> params \<Rightarrow> tree_state \<Rightarrow> menu \<Rightarrow> tree_state" where
  "tree_step extensionId ps s menuItem =
     (case renderExtensionMenuItem extensionId ps menuItem of
        None \<Rightarrow> s
      | Some rendered \<Rightarrow>
          (let a = length (store s);
               s1 = s \<lparr> store := store s @ [rendered] \<rparr>;
               s2 = (case parent_in_index s1 menuItem of
                       Some p \<Rightarrow>
                         s1 \<lparr> store := (store s1)
                                [p := (store s1 ! p) \<lparr> submenu :=
                                        Some (submenu_or_empty (store s1 ! p) @ [a]) \<rparr>] \<rparr>
                     | None \<Rightarrow> s1 \<lparr> root := root s1 @ [a] \<rparr>)
           in s2 \<lparr> index := (index s2)(menu_id menuItem \<mapsto> a) \<rparr>))"

definition tree_loop :: "item list \<Rightarrow> jsstring \<Rightarrow> params \<Rightarrow> menu list \<Rightarrow> tree_state" where
  "tree_loop h extensionId ps contextMenus =
     foldl (tree_step extensionId ps) \<lparr> root = [], index = Map.empty, store = h \<rparr> contextMenus"

text \<open>The function returns \<open>root\<close>; the store it leaves is returned with it.\<close>

definition renderExtensionMenuTree ::
  "item list \<Rightarrow> jsstring \<Rightarrow> params \<Rightarrow> menu list \<Rightarrow> addr list \<times> item list" where
  "renderExtensionMenuTree h extensionId ps contextMenus =
     (let s = tree_loop h extensionId ps contextMenus in (root s, store s))"

text \<open>
  One entry of the runtime context-menu data. Its \<open>contextMenus\<close> are taken after the
  first loop of \<open>renderExtensionSection\<close> has turned each pair of a menu id and its
  data into a \<open>CRExtensionRTContextMenu\<close>.
\<close>

record extension =
  name :: jsstring
  icons :: "(jsstring \<times> jsstring) list"
  contextMenus :: "menu list"

text \<open>
  The callback of \<open>filter\<close>. The argument of the first \<open>has\<close> is the value of
  \<open>CONTEXT_TYPES.ALL || CONTEXT_TYPES.PAGE\<close>; a callback that returns nothing
  rejects the node.
\<close>

definition validContextMenu :: "params \<Rightarrow> menu \<Rightarrow> bool" where
  "validContextMenu ps m =
     (if js_or CONTEXT_TYPES_ALL CONTEXT_TYPES_PAGE \<in> set (contexts m) then True
      else if isEditable ps \<and> CONTEXT_TYPES_EDITABLE \<in> set (contexts m) then True
      else False)"

text \<open>
  The object literal that spreads an item after the property \<open>icon\<close>: a property
  \<open>icon\<close> of the item itself would override the one written first.
\<close>

definition icon_then_spread :: "native_image \<Rightarrow> item \<Rightarrow> item" where
  "icon_then_spread img it =
     (case icon it of None \<Rightarrow> it \<lparr> icon := Some img \<rparr> | Some own \<Rightarrow> it)"

text \<open>The body of the second loop, for one extension: the template and the store.\<close>

definition extension_step ::
  "params \<Rightarrow> item list \<times> item list \<Rightarrow> jsstring \<times> extension \<Rightarrow> item list \<times> item list" where
  "extension_step ps acc entry =
     (let template = fst acc;
          extensionId = fst entry;
          ext = snd entry;
          validContextMenus = filter (validContextMenu ps) (contextMenus ext);
          rendered = renderExtensionMenuTree (snd acc) extensionId ps validContextMenus;
          renderedMenuTemplate = fst rendered;
          h = snd rendered;
          img = CreateFromPath (map_of (icons ext) (str ''16''))
      in if length renderedMenuTemplate = 1 then
           (template @ [icon_then_spread img (h ! (renderedMenuTemplate ! 0))], h)
         else if length validContextMenus > 1 then
           (template @ [empty_item \<lparr> label := Some (name ext), icon := Some img,
                                       submenu := Some renderedMenuTemplate \<rparr>], h)
         else (template, h))"

text \<open>
  \<open>inTab\<close>: whether \<open>WaveboxWindow.fromTabId\<close> finds a window for the contents. The
  runtime data is the list of its entries in the order of \<open>Object.keys\<close>.
\<close>

definition renderExtensionSection ::
  "bool \<Rightarrow> params \<Rightarrow> (jsstring \<times> extension) list \<Rightarrow> item list \<Rightarrow> item list \<times> item list" where
  "renderExtensionSection inTab ps extensionContextMenus h =
     (if \<not> inTab then ([], h)
      else foldl (extension_step ps) ([], h) extensionContextMenus)"

section \<open>The registry of bound contents\<close>

text \<open>
  A contents is identified with its id. The registry holds the set \<open>privConnected\<close>;
  the rest of the state is what the event loop and the contents hold: the closures
  queued by \<open>setImmediate\<close> (each one with the contents it captured), the contents that
  are destroyed, and for every contents how many times \<open>launchMenu\<close> listens to its
  \<open>context-menu\<close> event and how many cleanup closures listen to \<open>destroyed\<close>.
\<close>

record registry =
  privConnected :: "nat set"
  immediates :: "nat list"
  destroyed :: "nat set"
  contextMenuListeners :: "nat \<Rightarrow> nat"
  destroyedListeners :: "nat \<Rightarrow> nat"

definition new_registry :: registry where
  "new_registry = \<lparr> privConnected = {}, immediates = [], destroyed = {},
     contextMenuListeners = (\<lambda>c. 0), destroyedListeners = (\<lambda>c. 0) \<rparr>"

definition handleWebContentsCreated :: "nat \<Rightarrow> registry \<Rightarrow> registry" where
  "handleWebContentsCreated contents r = r \<lparr> immediates := immediates r @ [contents] \<rparr>"

text \<open>The argument is the \<open>webContents\<close> of the window that was created.\<close>

definition handleBrowserWindowCreated :: "nat \<Rightarrow> registry \<Rightarrow> registry" where
  "handleBrowserWindowCreated window_webContents r =
     handleWebContentsCreated window_webContents r"

text \<open>The closure given to \<open>setImmediate\<close>, run for the contents it captured.\<close>

definition deferred_bind :: "host \<Rightarrow> nat \<Rightarrow> registry \<Rightarrow> registry" where
  "deferred_bind h contents r =
     (if contents \<in> destroyed r then r
      else if contents \<in> privConnected r then r
      else if \<not> hasRootContents h then r
      else if \<not> hasBrowserWindow h then r
      else if (case waveboxWindow h of
                 None \<Rightarrow> False
               | Some w \<Rightarrow> \<not> rootWebContentsHasContextMenu w \<and> rootWebContentsId w = contents)
           then r
      else r \<lparr> privConnected := insert contents (privConnected r),
               contextMenuListeners :=
                 (contextMenuListeners r)(contents := contextMenuListeners r contents + 1),
               destroyedListeners :=
                 (destroyedListeners r)(contents := destroyedListeners r contents + 1) \<rparr>)"

text \<open>
  What can happen to the registry: one of the two creation events is delivered, the
  event loop runs the oldest queued closure (the host answers its questions then), or
  a live contents is destroyed, which runs its cleanup closures.
\<close>

datatype event =
    WebContentsCreated nat
  | BrowserWindowCreated nat
  | RunImmediate host
  | Destroy nat

fun step :: "registry \<Rightarrow> event \<Rightarrow> registry" where
  "step r (WebContentsCreated c) = handleWebContentsCreated c r"
| "step r (BrowserWindowCreated c) = handleBrowserWindowCreated c r"
| "step r (RunImmediate h) =
     (case immediates r of
        [] \<Rightarrow> r
      | c # rest \<Rightarrow> deferred_bind h c (r \<lparr> immediates := rest \<rparr>))"
| "step r (Destroy c) =
     (if c \<in> destroyed r then r
      else r \<lparr> destroyed := insert c (destroyed r),
               privConnected :=
                 (if destroyedListeners r c > 0 then privConnected r - {c}
                  else privConnected r) \<rparr>)"

definition run :: "event list \<Rightarrow> registry" where
  "run evs = foldl step new_registry evs"

text \<open>
  A \<open>context-menu\<close> event of a contents calls every listener once: the number of calls
  of \<open>launchMenu\<close> that one trigger makes.
\<close>

definition launchMenu_calls :: "registry \<Rightarrow> nat \<Rightarrow> nat" where
  "launchMenu_calls r contents = contextMenuListeners r contents"

section \<open>Notions used to state the properties\<close>

subsection \<open>Templates and separators\<close>

text \<open>The sections that are arrays with at least one item, in order.\<close>

fun nonempty_sections :: "menu_section list \<Rightarrow> item list list" where
  "nonempty_sections [] = []"
| "nonempty_sections (Section xs # ss) =
     (if xs = [] then nonempty_sections ss else xs # nonempty_sections ss)"
| "nonempty_sections (Undefined # ss) = nonempty_sections ss"
| "nonempty_sections (Null # ss) = nonempty_sections ss"

text \<open>Lists of items put one after the other, with one separator between two of them.\<close>

fun join_sections :: "item list list \<Rightarrow> item list" where
  "join_sections [] = []"
| "join_sections [s] = s"
| "join_sections (s # t # ss) = s @ [separator] @ join_sections (t # ss)"

fun adjacent_separators :: "item list \<Rightarrow> bool" where
  "adjacent_separators (x # y # xs) =
     ((isSeparator x \<and> isSeparator y) \<or> adjacent_separators (y # xs))"
| "adjacent_separators [x] = False"
| "adjacent_separators [] = False"

text \<open>No separator first, none last, no two in a row.\<close>

definition well_separated :: "item list \<Rightarrow> bool" where
  "well_separated t =
     ((t \<noteq> [] \<longrightarrow> \<not> isSeparator (hd t) \<and> \<not> isSeparator (last t))
      \<and> \<not> adjacent_separators t)"

subsection \<open>The tree in the store\<close>

text \<open>An item is reachable when it is in the root list or in the submenu of a reachable item.\<close>

inductive reachable :: "item list \<Rightarrow> addr list \<Rightarrow> addr \<Rightarrow> bool" for h r where
  at_root: "a \<in> set r \<Longrightarrow> reachable h r a"
| in_submenu: "reachable h r p \<Longrightarrow> p < length h \<Longrightarrow> a \<in> set (submenu_or_empty (h ! p))
     \<Longrightarrow> reachable h r a"

text \<open>
  Every place where an item is attached: the root list, then the submenus of the
  objects from address \<open>n\<close> on, one after the other.
\<close>

definition attachments :: "nat \<Rightarrow> tree_state \<Rightarrow> addr list" where
  "attachments n s =
     root s @ concat (map (\<lambda>p. submenu_or_empty (store s ! p)) [n..<length (store s)])"

text \<open>Whether a node is rendered into an item.\<close>

definition renders :: "jsstring \<Rightarrow> params \<Rightarrow> menu \<Rightarrow> bool" where
  "renders e ps m = (renderExtensionMenuItem e ps m \<noteq> None)"

text \<open>
  The invariant of the loop, for a loop started on a store of \<open>n\<close> objects: the index
  holds addresses of new objects only, every new object is attached exactly once, and
  every new object is reachable from the root list.
\<close>

definition tree_inv :: "nat \<Rightarrow> tree_state \<Rightarrow> bool" where
  "tree_inv n s =
     (n \<le> length (store s) \<and> ran (index s) \<subseteq> {n..<length (store s)}
      \<and> mset (attachments n s) = mset [n..<length (store s)]
      \<and> (\<forall>a. n \<le> a \<and> a < length (store s) \<longrightarrow> reachable (store s) (root s) a))"

subsection \<open>The registry\<close>

text \<open>
  The invariant of the registry: no contents has more than one listener; a connected
  contents is live and has its listener and its cleanup closure; a contents with a
  listener is connected or destroyed.
\<close>

definition registry_inv :: "registry \<Rightarrow> bool" where
  "registry_inv r =
     (\<forall>c. contextMenuListeners r c \<le> 1
        \<and> (c \<in> privConnected r \<longrightarrow>
             contextMenuListeners r c = 1 \<and> destroyedListeners r c > 0 \<and> c \<notin> destroyed r)
        \<and> (contextMenuListeners r c = 1 \<longrightarrow> c \<in> privConnected r \<or> c \<in> destroyed r))"

subsection \<open>Concrete inputs\<close>

definition example_params :: params where
  "example_params = \<lparr> linkURL = [], selectionText = [], isEditable = False,
     misspelledWord = [], inputFieldType = [] \<rparr>"

definition example_node :: "string \<Rightarrow> string option \<Rightarrow> jsstring \<Rightarrow> jsstring list \<Rightarrow> menu" where
  "example_node i p t cs = \<lparr> menu_id = str i, parentId = map_option str p, title = str i,
     menu_type = t, menu_enabled = True, menu_checked = False, contexts = cs \<rparr>"

text \<open>Three nodes; the second one names as its parent the third one, which comes later.\<close>

definition example_nodes :: "menu list" where
  "example_nodes =
     [example_node ''first'' None ITEM_TYPES_NORMAL [CONTEXT_TYPES_ALL],
      example_node ''child'' (Some ''parent'') ITEM_TYPES_NORMAL [CONTEXT_TYPES_ALL],
      example_node ''parent'' None ITEM_TYPES_NORMAL [CONTEXT_TYPES_ALL]]"

text \<open>The same, followed by a node that names the same parent after it.\<close>

definition example_nodes_late :: "menu list" where
  "example_nodes_late =
     example_nodes @
     [example_node ''late'' (Some ''parent'') ITEM_TYPES_CHECKBOX [CONTEXT_TYPES_ALL]]"

definition example_extension :: "menu list \<Rightarrow> extension" where
  "example_extension ms = \<lparr> name = str ''Ext'', icons = [(str ''16'', str ''icon.png'')],
     contextMenus = ms \<rparr>"

definition example_host :: host where
  "example_host = \<lparr> hasRootContents = True, hasBrowserWindow = True, waveboxWindow = None \<rparr>"

definition example_autofill :: "credential list settled \<Rightarrow> autofill_service" where
  "example_autofill outcome = \<lparr> isAvailable = True, isValidAutofillUrl = (\<lambda>url. True),
     findCredentials = (\<lambda>url. outcome) \<rparr>"

definition password_params :: params where
  "password_params = \<lparr> linkURL = [], selectionText = [], isEditable = True,
     misspelledWord = [], inputFieldType = str ''password'' \<rparr>"

definition example_item :: "string \<Rightarrow> item" where
  "example_item l = empty_item \<lparr> label := Some (str l) \<rparr>"

lemmas example_defs = example_params_def example_node_def example_nodes_def
  example_nodes_late_def
  example_extension_def example_host_def example_autofill_def password_params_def
  example_item_def

lemmas constant_defs = str_def truthy_def js_or_def
  ITEM_TYPES_NORMAL_def ITEM_TYPES_CHECKBOX_def ITEM_TYPES_RADIO_def ITEM_TYPES_SEPERATOR_def
  CONTEXT_TYPES_ALL_def CONTEXT_TYPES_PAGE_def CONTEXT_TYPES_EDITABLE_def
  empty_item_def separator_def isSeparator_def

lemmas tree_defs = tree_loop_def tree_step_def renderExtensionMenuItem_def
  parent_in_index_def submenu_or_empty_def Let_def

section \<open>Strings: the lookup label and the copied link\<close>

lemma replace_prefix:
  "startsWith s p \<Longrightarrow> s \<noteq> [] \<Longrightarrow> replace s p r = r @ drop (length p) s"
  by (cases s) simp_all

lemma length_str: "length (str s) = length s"
  by (simp add: str_def)

text \<open>
  C8. In the lookup and search section, a selection of exactly 50 code units is shown
  in the two labels as its first 47 code units followed by an ellipsis; a selection of
  49 code units is shown whole.
\<close>

theorem C8_display_text_truncation:
  "(length (selectionText ps) = 50 \<longrightarrow>
      map label (renderLookupAndSearchSection ps) =
        (if isEditable ps \<and> misspelledWord ps \<noteq> []
         then [Some (str ''Add '' @ [ldquo] @ misspelledWord ps @ [rdquo]
                     @ str '' to Dictionary'')]
         else []) @
        [Some (str ''Search Google for '' @ [ldquo]
               @ take 47 (selectionText ps) @ [ellipsis] @ [rdquo]),
         Some (str ''Translate '' @ [ldquo]
               @ take 47 (selectionText ps) @ [ellipsis] @ [rdquo])])
   \<and> (length (selectionText ps) = 49 \<longrightarrow>
      map label (renderLookupAndSearchSection ps) =
        (if isEditable ps \<and> misspelledWord ps \<noteq> []
         then [Some (str ''Add '' @ [ldquo] @ misspelledWord ps @ [rdquo]
                     @ str '' to Dictionary'')]
         else []) @
        [Some (str ''Search Google for '' @ [ldquo] @ selectionText ps @ [rdquo]),
         Some (str ''Translate '' @ [ldquo] @ selectionText ps @ [rdquo])])"
  by (auto simp add: renderLookupAndSearchSection_def truthy_def substr_def Let_def
        empty_item_def)

theorem C8_display_text_truncation_witness:
  "length (selectionText (example_params \<lparr> selectionText := replicate 50 0x61 \<rparr>)) = 50
   \<and> map label (renderLookupAndSearchSection
                  (example_params \<lparr> selectionText := replicate 50 0x61 \<rparr>)) =
       [Some (str ''Search Google for '' @ [ldquo] @ replicate 47 0x61 @ [ellipsis] @ [rdquo]),
        Some (str ''Translate '' @ [ldquo] @ replicate 47 0x61 @ [ellipsis] @ [rdquo])]
   \<and> length (selectionText (example_params \<lparr> selectionText := replicate 49 0x61 \<rparr>)) = 49
   \<and> map label (renderLookupAndSearchSection
                  (example_params \<lparr> selectionText := replicate 49 0x61 \<rparr>)) =
       [Some (str ''Search Google for '' @ [ldquo] @ replicate 49 0x61 @ [rdquo]),
        Some (str ''Translate '' @ [ldquo] @ replicate 49 0x61 @ [rdquo])]"
  using C8_display_text_truncation
          [of "example_params \<lparr> selectionText := replicate 50 0x61 \<rparr>"]
        C8_display_text_truncation
          [of "example_params \<lparr> selectionText := replicate 49 0x61 \<rparr>"]
  by (simp add: example_params_def)

text \<open>
  C9. The click handler of Copy Link Address writes \<open>user@x.com\<close> to the clipboard
  for the link \<open>mailto:user@x.com\<close> and the whole link for
  \<open>mailto:user@x.com?subject=hi\<close>. In general a link that starts with \<open>mailto:\<close>
  and has no question mark is written without its first seven code units, and every
  other link, so every link that does not start with \<open>mailto:\<close>, is written as it is.
\<close>

theorem C9_copy_link_address:
  "copyLinkAddress_click (ps \<lparr> linkURL := str ''mailto:user@x.com'' \<rparr>) cb
     = str ''user@x.com''
   \<and> copyLinkAddress_click (ps \<lparr> linkURL := str ''mailto:user@x.com?subject=hi'' \<rparr>) cb
     = str ''mailto:user@x.com?subject=hi''
   \<and> (startsWith (linkURL ps) (str ''mailto:'') \<and> indexOf (linkURL ps) (str ''?'') = - 1
        \<longrightarrow> copyLinkAddress_click ps cb = drop 7 (linkURL ps))
   \<and> (\<not> (startsWith (linkURL ps) (str ''mailto:'') \<and> indexOf (linkURL ps) (str ''?'') = - 1)
        \<longrightarrow> copyLinkAddress_click ps cb = linkURL ps)
   \<and> (\<not> startsWith (linkURL ps) (str ''mailto:'') \<longrightarrow> copyLinkAddress_click ps cb = linkURL ps)"
proof -
  have 1: "copyLinkAddress_click (ps \<lparr> linkURL := str ''mailto:user@x.com'' \<rparr>) cb
             = str ''user@x.com''"
    by (simp add: copyLinkAddress_click_def writeText_def startsWith_def indexOf_def str_def)
  have 2: "copyLinkAddress_click (ps \<lparr> linkURL := str ''mailto:user@x.com?subject=hi'' \<rparr>) cb
             = str ''mailto:user@x.com?subject=hi''"
    by (simp add: copyLinkAddress_click_def writeText_def startsWith_def indexOf_def str_def)
  have 3: "copyLinkAddress_click ps cb = drop 7 (linkURL ps)"
    if "startsWith (linkURL ps) (str ''mailto:'')" "indexOf (linkURL ps) (str ''?'') = - 1"
  proof -
    have ne: "linkURL ps \<noteq> []" using that(1) by (auto simp add: startsWith_def str_def)
    have len: "length (str ''mailto:'') = 7" and emp: "str '''' = []"
      by (simp_all add: str_def)
    have "replace (linkURL ps) (str ''mailto:'') (str '''')
            = str '''' @ drop (length (str ''mailto:'')) (linkURL ps)"
      using that(1) ne by (rule replace_prefix)
    then have "replace (linkURL ps) (str ''mailto:'') (str '''') = drop 7 (linkURL ps)"
      using len emp by simp
    then show ?thesis using that by (simp add: copyLinkAddress_click_def writeText_def)
  qed
  have 4: "copyLinkAddress_click ps cb = linkURL ps"
    if "\<not> (startsWith (linkURL ps) (str ''mailto:'') \<and> indexOf (linkURL ps) (str ''?'') = - 1)"
    using that by (auto simp add: copyLinkAddress_click_def writeText_def)
  show ?thesis using 1 2 3 4 by blast
qed

theorem C9_copy_link_address_witness:
  "startsWith (str ''mailto:a@b.c'') (str ''mailto:'')
   \<and> indexOf (str ''mailto:a@b.c'') (str ''?'') = - 1
   \<and> copyLinkAddress_click (example_params \<lparr> linkURL := str ''mailto:a@b.c'' \<rparr>) []
       = str ''a@b.c''
   \<and> \<not> startsWith (str ''https://x.com/?q=1'') (str ''mailto:'')
   \<and> copyLinkAddress_click (example_params \<lparr> linkURL := str ''https://x.com/?q=1'' \<rparr>) []
       = str ''https://x.com/?q=1''"
  using C9_copy_link_address
          [of "example_params \<lparr> linkURL := str ''mailto:a@b.c'' \<rparr>" "[]"]
        C9_copy_link_address
          [of "example_params \<lparr> linkURL := str ''https://x.com/?q=1'' \<rparr>" "[]"]
  by (simp add: example_params_def startsWith_def indexOf_def str_def)

section \<open>The aggregator\<close>

lemma slice_butlast: "slice xs 0 (- 1) = butlast xs"
  by (cases "xs = []")
     (auto simp add: slice_def Let_def butlast_conv_take nat_diff_distrib' max_def)

lemma reducer_Inr:
  "reducer acc s =
     Inr (acc @ concat (map (\<lambda>xs. xs @ [separator]) (nonempty_sections [s])))"
  by (cases s) (auto simp add: reducer_def)

lemma nonempty_sections_append:
  "nonempty_sections (xs @ ys) = nonempty_sections xs @ nonempty_sections ys"
  by (induction xs rule: nonempty_sections.induct) auto

lemma reduce_reducer:
  "reduce reducer secs acc =
     Inr (acc @ concat (map (\<lambda>xs. xs @ [separator]) (nonempty_sections secs)))"
proof (induction secs arbitrary: acc)
  case Nil
  show ?case by simp
next
  case (Cons s secs)
  have "nonempty_sections (s # secs) = nonempty_sections [s] @ nonempty_sections secs"
    using nonempty_sections_append[of "[s]" secs] by simp
  moreover have "reducer acc s =
      Inr (acc @ concat (map (\<lambda>xs. xs @ [separator]) (nonempty_sections [s])))"
    by (rule reducer_Inr)
  ultimately show ?case by (simp add: Cons.IH)
qed

lemma butlast_join:
  "butlast (concat (map (\<lambda>xs. xs @ [separator]) ss)) = join_sections ss"
  by (induction ss rule: join_sections.induct) (auto simp add: butlast_append)

text \<open>The aggregator never fails, and what it returns.\<close>

lemma convert_join:
  "convertSectionsToTemplate secs = Inr (join_sections (nonempty_sections secs))"
  by (simp add: convertSectionsToTemplate_def reduce_reducer slice_butlast butlast_join)

lemma adjacent_append:
  "adjacent_separators (xs @ ys) =
     (adjacent_separators xs \<or> adjacent_separators ys
      \<or> (xs \<noteq> [] \<and> ys \<noteq> [] \<and> isSeparator (last xs) \<and> isSeparator (hd ys)))"
proof (induction xs rule: adjacent_separators.induct)
  case (1 x y xs)
  then show ?case by auto
next
  case (2 x)
  then show ?case by (cases ys) auto
next
  case 3
  then show ?case by simp
qed

lemma nonempty_sections_set:
  "xs \<in> set (nonempty_sections secs) \<longleftrightarrow> (Section xs \<in> set secs \<and> xs \<noteq> [])"
  by (induction secs rule: nonempty_sections.induct) auto

lemma join_nonempty: "ss \<noteq> [] \<Longrightarrow> \<forall>s\<in>set ss. s \<noteq> [] \<Longrightarrow> join_sections ss \<noteq> []"
  by (induction ss rule: join_sections.induct) auto

lemma hd_join:
  "ss \<noteq> [] \<Longrightarrow> \<forall>s\<in>set ss. s \<noteq> [] \<Longrightarrow> hd (join_sections ss) = hd (hd ss)"
  by (induction ss rule: join_sections.induct) auto

lemma well_separated_join:
  "\<forall>s\<in>set ss. s \<noteq> [] \<and> well_separated s \<Longrightarrow> well_separated (join_sections ss)"
proof (induction ss rule: join_sections.induct)
  case 1
  show ?case by (simp add: well_separated_def)
next
  case (2 s)
  then show ?case by simp
next
  case (3 s t ss)
  define J where "J = join_sections (t # ss)"
  have IH: "well_separated J" using 3 by (simp add: J_def)
  have ne: "J \<noteq> []" using 3(2) join_nonempty[of "t # ss"] by (simp add: J_def)
  have hd: "hd J = hd t" using 3(2) hd_join[of "t # ss"] by (simp add: J_def)
  have s: "s \<noteq> []" "well_separated s" and t: "t \<noteq> []" "well_separated t"
    using 3(2) by auto
  have sep: "isSeparator separator" by (simp add: isSeparator_def separator_def)
  have adjJ: "\<not> adjacent_separators ([separator] @ J)"
    using IH ne hd t sep unfolding adjacent_append[of "[separator]" J]
    by (simp add: well_separated_def)
  have "\<not> adjacent_separators (s @ ([separator] @ J))"
    using adjJ s sep unfolding adjacent_append[of s "[separator] @ J"]
    by (simp add: well_separated_def)
  moreover have "hd (s @ [separator] @ J) = hd s" "last (s @ [separator] @ J) = last J"
    using s ne by simp_all
  ultimately show ?case using IH s ne by (simp add: well_separated_def J_def)
qed

text \<open>
  C2, as the claim states it, fails: the aggregator does not look into the sections, so
  a section that is itself one separator (what the extension section is when an
  extension offers a single separator node) gives three separators in a row.
\<close>

theorem C2_separator_section_counterexample:
  "convertSectionsToTemplate
     [Section [example_item ''Reload''],
      Section [separator \<lparr> icon := Some (CreateFromPath None) \<rparr>],
      Section [example_item ''Inspect'']]
   = Inr [example_item ''Reload'', separator,
          separator \<lparr> icon := Some (CreateFromPath None) \<rparr>, separator,
          example_item ''Inspect'']
   \<and> \<not> well_separated
         [example_item ''Reload'', separator,
          separator \<lparr> icon := Some (CreateFromPath None) \<rparr>, separator,
          example_item ''Inspect'']"
  by (simp add: convert_join well_separated_def isSeparator_def separator_def
        empty_item_def example_item_def)

text \<open>
  C2, amended. For every list of sections, the template is the non-empty sections in
  order with exactly one separator between two consecutive ones, and none before the
  first or after the last: separators are inserted only between non-empty sections.
  When no section starts or ends with a separator or has two separators in a row, the
  template has no separator first, none last and no two in a row, whichever sections
  are empty.
\<close>

theorem C2_template_well_separated:
  assumes "\<forall>xs. Section xs \<in> set secs \<longrightarrow> well_separated xs"
  shows "convertSectionsToTemplate secs = Inr (join_sections (nonempty_sections secs))
         \<and> well_separated (join_sections (nonempty_sections secs))"
proof -
  have "\<forall>s\<in>set (nonempty_sections secs). s \<noteq> [] \<and> well_separated s"
    using assms by (simp add: nonempty_sections_set)
  then show ?thesis using well_separated_join convert_join by blast
qed

theorem C2_template_well_separated_witness:
  "well_separated [] \<and> well_separated [example_item ''Undo'']
   \<and> well_separated [example_item ''Cut'', example_item ''Copy'']
   \<and> convertSectionsToTemplate
        [Section [], Section [example_item ''Undo''], Undefined,
         Section [example_item ''Cut'', example_item ''Copy''], Null]
      = Inr [example_item ''Undo'', separator, example_item ''Cut'', example_item ''Copy'']
   \<and> well_separated
        [example_item ''Undo'', separator, example_item ''Cut'', example_item ''Copy'']"
proof -
  have w: "well_separated []" "well_separated [example_item ''Undo'']"
    "well_separated [example_item ''Cut'', example_item ''Copy'']"
    by (simp_all add: well_separated_def isSeparator_def example_item_def empty_item_def)
  then have h: "\<forall>xs. Section xs \<in> set [Section [], Section [example_item ''Undo''], Undefined,
                              Section [example_item ''Cut'', example_item ''Copy''], Null]
          \<longrightarrow> well_separated xs"
    by auto
  show ?thesis using w C2_template_well_separated[OF h] by simp
qed

section \<open>Launching the menu\<close>

lemma presentMenu_Inr:
  "presentMenu sections = Inr (Presented (join_sections (nonempty_sections sections)))"
  by (simp add: presentMenu_def convert_join)

text \<open>
  C3. When the lookup was started (the root contents and the window were found, the
  service is available, the URL is valid for it and the field is a password field) and
  the promise is rejected, \<open>launchMenu\<close> fails with no error and presents a menu, and
  the template of that menu is the template of the synchronous sections alone.
\<close>

theorem C3_rejected_lookup_presents_synchronous_menu:
  assumes "hasRootContents h" "hasBrowserWindow h"
    and "isAvailable autofill" "isValidAutofillUrl autofill url"
    and "isAutofillPasswordField url ps"
    and "findCredentials autofill url = Rejected"
  shows "\<exists>t. convertSectionsToTemplate sections = Inr t
            \<and> launchMenu h autofill url url_later ps sections = Inr (Presented t)"
  using assms by (simp add: convert_join launchMenu_def presentMenu_def)

theorem C3_rejected_lookup_presents_synchronous_menu_witness:
  "hasRootContents example_host \<and> hasBrowserWindow example_host
   \<and> isAvailable (example_autofill Rejected)
   \<and> isValidAutofillUrl (example_autofill Rejected) (str ''https://a.b/'')
   \<and> isAutofillPasswordField (str ''https://a.b/'') password_params
   \<and> findCredentials (example_autofill Rejected) (str ''https://a.b/'') = Rejected
   \<and> (\<exists>t. convertSectionsToTemplate [Section [example_item ''Paste''], Section []] = Inr t
          \<and> launchMenu example_host (example_autofill Rejected) (str ''https://a.b/'')
               (str ''https://a.b/'') password_params
               [Section [example_item ''Paste''], Section []]
             = Inr (Presented t))"
proof -
  have h: "hasRootContents example_host" "hasBrowserWindow example_host"
    "isAvailable (example_autofill Rejected)"
    "isValidAutofillUrl (example_autofill Rejected) (str ''https://a.b/'')"
    "isAutofillPasswordField (str ''https://a.b/'') password_params"
    "findCredentials (example_autofill Rejected) (str ''https://a.b/'') = Rejected"
    by (simp_all add: example_host_def example_autofill_def password_params_def
          isAutofillPasswordField_def startsWith_def str_def)
  show ?thesis
    using h C3_rejected_lookup_presents_synchronous_menu
              [OF h, where url_later = "str ''https://a.b/''"
                 and sections = "[Section [example_item ''Paste''], Section []]"]
    by blast
qed

text \<open>
  C10. An entry of the sections list that is \<open>undefined\<close> or \<open>null\<close> changes the
  template as little as an empty section does, that is not at all, wherever it stands
  in the list, and the aggregator never fails. So when the lookup succeeds and
  \<open>renderAutofillSection\<close> returns \<open>undefined\<close>, the menu that is presented is the one
  of the synchronous sections alone.
\<close>

theorem C10_undefined_section_is_empty_section:
  "convertSectionsToTemplate (pre @ Undefined # post) = convertSectionsToTemplate (pre @ post)
   \<and> convertSectionsToTemplate (pre @ Null # post) = convertSectionsToTemplate (pre @ post)
   \<and> convertSectionsToTemplate (pre @ Section [] # post)
       = convertSectionsToTemplate (pre @ post)
   \<and> (\<exists>t. convertSectionsToTemplate (pre @ post) = Inr t)
   \<and> (hasRootContents h \<and> hasBrowserWindow h
        \<and> isAvailable autofill \<and> isValidAutofillUrl autofill url
        \<and> isAutofillPasswordField url ps
        \<and> findCredentials autofill url = Resolved credentials
        \<and> renderAutofillSection url_later ps credentials = Undefined
      \<longrightarrow> launchMenu h autofill url url_later ps sections = presentMenu sections
          \<and> (\<exists>t. convertSectionsToTemplate sections = Inr t
                 \<and> presentMenu sections = Inr (Presented t)))"
  by (simp add: convert_join nonempty_sections_append launchMenu_def presentMenu_def)

theorem C10_undefined_section_is_empty_section_witness:
  "hasRootContents example_host \<and> hasBrowserWindow example_host
   \<and> isAvailable (example_autofill (Resolved []))
   \<and> isValidAutofillUrl (example_autofill (Resolved [])) (str ''https://a.b/'')
   \<and> isAutofillPasswordField (str ''https://a.b/'') password_params
   \<and> findCredentials (example_autofill (Resolved [])) (str ''https://a.b/'') = Resolved []
   \<and> renderAutofillSection (str ''http://a.b/'') password_params [] = Undefined
   \<and> launchMenu example_host (example_autofill (Resolved [])) (str ''https://a.b/'')
        (str ''http://a.b/'') password_params [Section [example_item ''Paste'']]
      = Inr (Presented [example_item ''Paste''])
   \<and> convertSectionsToTemplate [Undefined, Section [example_item ''Paste'']]
      = Inr [example_item ''Paste'']"
proof -
  have h: "hasRootContents example_host \<and> hasBrowserWindow example_host
     \<and> isAvailable (example_autofill (Resolved []))
     \<and> isValidAutofillUrl (example_autofill (Resolved [])) (str ''https://a.b/'')
     \<and> isAutofillPasswordField (str ''https://a.b/'') password_params
     \<and> findCredentials (example_autofill (Resolved [])) (str ''https://a.b/'') = Resolved []
     \<and> renderAutofillSection (str ''http://a.b/'') password_params [] = Undefined"
    by (simp add: example_host_def example_autofill_def password_params_def
          isAutofillPasswordField_def renderAutofillSection_def startsWith_def str_def)
  have p: "presentMenu [Section [example_item ''Paste'']] = Inr (Presented [example_item ''Paste''])"
    by (simp add: presentMenu_Inr)
  show ?thesis
    using h p
      C10_undefined_section_is_empty_section
        [where pre = "[]" and post = "[Section [example_item ''Paste'']]"
           and h = example_host and autofill = "example_autofill (Resolved [])"
           and url = "str ''https://a.b/''" and ps = password_params
           and credentials = "[]" and url_later = "str ''http://a.b/''"
           and sections = "[Section [example_item ''Paste'']]"]
    by (simp add: convert_join)
qed

section \<open>The tree builder\<close>

subsection \<open>One step of the loop\<close>

lemma rendered_no_submenu: "renderExtensionMenuItem e ps m = Some r \<Longrightarrow> submenu r = None"
  by (auto simp add: renderExtensionMenuItem_def empty_item_def separator_def
        split: if_splits)

lemma rendered_no_icon: "renderExtensionMenuItem e ps m = Some r \<Longrightarrow> icon r = None"
  by (auto simp add: renderExtensionMenuItem_def empty_item_def separator_def
        split: if_splits)

lemma parent_in_index_store [simp]:
  "parent_in_index (s \<lparr> store := h \<rparr>) m = parent_in_index s m"
  by (simp add: parent_in_index_def split: option.splits)

lemma parent_in_index_ran: "parent_in_index s m = Some p \<Longrightarrow> p \<in> ran (index s)"
  by (auto simp add: parent_in_index_def ran_def split: option.splits if_splits)

lemma tree_step_None: "renderExtensionMenuItem e ps m = None \<Longrightarrow> tree_step e ps s m = s"
  by (simp add: tree_step_def)

lemma tree_step_root:
  assumes "renderExtensionMenuItem e ps m = Some r" "parent_in_index s m = None"
  shows "tree_step e ps s m =
     s \<lparr> root := root s @ [length (store s)],
         index := (index s)(menu_id m \<mapsto> length (store s)),
         store := store s @ [r] \<rparr>"
  using assms by (simp add: tree_step_def Let_def)

lemma tree_step_parent:
  assumes "renderExtensionMenuItem e ps m = Some r" "parent_in_index s m = Some p"
  shows "tree_step e ps s m =
     s \<lparr> index := (index s)(menu_id m \<mapsto> length (store s)),
         store := (store s @ [r])
           [p := ((store s @ [r]) ! p) \<lparr> submenu :=
                   Some (submenu_or_empty ((store s @ [r]) ! p) @ [length (store s)]) \<rparr>] \<rparr>"
  using assms by (simp add: tree_step_def Let_def)

text \<open>The three ways a step can go: the node is skipped, put at the root, or put under its parent.\<close>

lemma tree_step_cases:
  obtains (skip) "renderExtensionMenuItem e ps m = None" "tree_step e ps s m = s"
  | (at_root) r where "renderExtensionMenuItem e ps m = Some r" "parent_in_index s m = None"
      "tree_step e ps s m =
         s \<lparr> root := root s @ [length (store s)],
             index := (index s)(menu_id m \<mapsto> length (store s)),
             store := store s @ [r] \<rparr>"
  | (under) r p where "renderExtensionMenuItem e ps m = Some r" "parent_in_index s m = Some p"
      "tree_step e ps s m =
         s \<lparr> index := (index s)(menu_id m \<mapsto> length (store s)),
             store := (store s @ [r])
               [p := ((store s @ [r]) ! p) \<lparr> submenu :=
                       Some (submenu_or_empty ((store s @ [r]) ! p) @ [length (store s)]) \<rparr>] \<rparr>"
  using tree_step_None[of e ps m s] tree_step_root[of e ps m _ s]
    tree_step_parent[of e ps m _ s]
  by (cases "renderExtensionMenuItem e ps m"; cases "parent_in_index s m") auto

lemma step_length:
  "length (store (tree_step e ps s m)) = length (store s) + (if renders e ps m then 1 else 0)"
  by (cases rule: tree_step_cases[of e ps m s]) (simp_all add: renders_def)


lemma step_root_length: "length (root (tree_step e ps s m)) \<le> length (root s) + 1"
  by (cases rule: tree_step_cases[of e ps m s]) auto


text \<open>A step changes nothing but the submenu of an object that is already in the store.\<close>

lemma step_fields:
  "a < length (store s) \<Longrightarrow>
     (store (tree_step e ps s m) ! a) \<lparr> submenu := x \<rparr> = (store s ! a) \<lparr> submenu := x \<rparr>"
  by (cases rule: tree_step_cases[of e ps m s]) (auto simp add: nth_append nth_list_update)

subsection \<open>The invariant\<close>

lemma reachable_mono:
  assumes "reachable h r a" "set r \<subseteq> set r'" "length h \<le> length h'"
    "\<And>p. p < length h \<Longrightarrow>
       set (submenu_or_empty (h ! p)) \<subseteq> set (submenu_or_empty (h' ! p))"
  shows "reachable h' r' a"
  using assms(1)
proof (induction rule: reachable.induct)
  case (at_root a)
  then show ?case using assms(2) by (auto intro: reachable.at_root)
next
  case (in_submenu p a)
  have "p < length h'" using in_submenu.hyps(2) assms(3) by simp
  moreover have "a \<in> set (submenu_or_empty (h' ! p))"
    using in_submenu.hyps(2,3) assms(4)[of p] by auto
  ultimately show ?case using in_submenu.IH by (rule reachable.in_submenu[rotated])
qed

lemma mset_concat_update:
  assumes "p \<in> set xs" "distinct xs"
    "\<And>q. q \<in> set xs \<Longrightarrow> q \<noteq> p \<Longrightarrow> g q = f q" "g p = f p @ [a]"
  shows "mset (concat (map g xs)) = mset (concat (map f xs)) + {#a#}"
  using assms(1,2,3)
proof (induction xs)
  case Nil
  then show ?case by simp
next
  case (Cons x xs)
  show ?case
  proof (cases "x = p")
    case True
    then have "p \<notin> set xs" using Cons.prems by simp
    then have "concat (map g xs) = concat (map f xs)"
      using Cons.prems(3) by (intro arg_cong[where f = concat] map_cong) auto
    then show ?thesis using True assms(4) by simp
  next
    case False
    then have "g x = f x" using Cons.prems by simp
    moreover have "mset (concat (map g xs)) = mset (concat (map f xs)) + {#a#}"
      using Cons False by auto
    ultimately show ?thesis by simp
  qed
qed

lemma tree_inv_step:
  assumes inv: "tree_inv n s"
  shows "tree_inv n (tree_step e ps s m)"
proof (cases rule: tree_step_cases[of e ps m s])
  case skip
  then show ?thesis using inv by simp
next
  case (at_root r)
  let ?h = "store s" and ?a = "length (store s)" and ?s' = "tree_step e ps s m"
  have n: "n \<le> ?a" and ranI: "ran (index s) \<subseteq> {n..<?a}"
    and ms: "mset (attachments n s) = mset [n..<?a]"
    and re: "\<And>a. n \<le> a \<Longrightarrow> a < ?a \<Longrightarrow> reachable ?h (root s) a"
    using inv by (auto simp add: tree_inv_def)
  have rsub: "submenu_or_empty r = []"
    using rendered_no_submenu[OF at_root(1)] by (simp add: submenu_or_empty_def)
  note eq = at_root(3)
  have 1: "ran (index ?s') \<subseteq> {n..<length (store ?s')}"
    using ranI n unfolding eq by (auto simp add: ran_def split: if_splits)
  have "concat (map (\<lambda>p. submenu_or_empty ((?h @ [r]) ! p)) [n..<?a])
      = concat (map (\<lambda>p. submenu_or_empty (?h ! p)) [n..<?a])"
    by (intro arg_cong[where f = concat] map_cong) (auto simp add: nth_append)
  then have 2: "mset (attachments n ?s') = mset [n..<length (store ?s')]"
    using ms n rsub unfolding eq by (simp add: attachments_def)
  have 3: "reachable (store ?s') (root ?s') a" if "n \<le> a" "a < length (store ?s')" for a
  proof (cases "a = ?a")
    case True
    then show ?thesis unfolding eq by (auto intro: reachable.at_root)
  next
    case False
    then have "reachable ?h (root s) a" using that re unfolding eq by simp
    then show ?thesis unfolding eq
      by (rule reachable_mono) (auto simp add: nth_append)
  qed
  show ?thesis using n 1 2 3 unfolding tree_inv_def by (simp add: eq)
next
  case (under r p)
  let ?h = "store s" and ?a = "length (store s)" and ?s' = "tree_step e ps s m"
  let ?h1 = "?h @ [r]"
  let ?h' = "?h1[p := (?h1 ! p) \<lparr> submenu := Some (submenu_or_empty (?h1 ! p) @ [?a]) \<rparr>]"
  have n: "n \<le> ?a" and ranI: "ran (index s) \<subseteq> {n..<?a}"
    and ms: "mset (attachments n s) = mset [n..<?a]"
    and re: "\<And>a. n \<le> a \<Longrightarrow> a < ?a \<Longrightarrow> reachable ?h (root s) a"
    using inv by (auto simp add: tree_inv_def)
  have rsub: "submenu_or_empty r = []"
    using rendered_no_submenu[OF under(1)] by (simp add: submenu_or_empty_def)
  note eq = under(3)
  have p: "n \<le> p" "p < ?a" using parent_in_index_ran[OF under(2)] ranI by auto
  have ch_p: "submenu_or_empty (?h' ! p) = submenu_or_empty (?h ! p) @ [?a]"
    using p by (simp add: nth_append submenu_or_empty_def)
  have ch_q: "submenu_or_empty (?h' ! q) = submenu_or_empty (?h ! q)"
    if "q < ?a" "q \<noteq> p" for q
    using that by (simp add: nth_append)
  have ch_a: "submenu_or_empty (?h' ! ?a) = []" using p rsub by simp
  have 1: "ran (index ?s') \<subseteq> {n..<length (store ?s')}"
    using ranI n unfolding eq by (auto simp add: ran_def split: if_splits)
  have "mset (concat (map (\<lambda>q. submenu_or_empty (?h' ! q)) [n..<?a]))
      = mset (concat (map (\<lambda>q. submenu_or_empty (?h ! q)) [n..<?a])) + {#?a#}"
    by (rule mset_concat_update[where p = p]) (use p ch_p ch_q in auto)
  then have 2: "mset (attachments n ?s') = mset [n..<length (store ?s')]"
    using ms n ch_a unfolding eq by (simp add: attachments_def)
  have mono: "reachable ?h' (root s) a" if "reachable ?h (root s) a" for a
    using that
  proof (rule reachable_mono)
    fix q
    assume "q < length ?h"
    then show "set (submenu_or_empty (?h ! q)) \<subseteq> set (submenu_or_empty (?h' ! q))"
      using ch_p ch_q[of q] by (cases "q = p") auto
  qed simp_all
  have 3: "reachable (store ?s') (root ?s') a" if "n \<le> a" "a < length (store ?s')" for a
  proof (cases "a = ?a")
    case True
    have "reachable ?h' (root s) p" using mono re p by simp
    then have "reachable ?h' (root s) ?a"
      by (rule reachable.in_submenu) (use p ch_p in auto)
    then show ?thesis using True unfolding eq by simp
  next
    case False
    then have "reachable ?h (root s) a" using that re unfolding eq by simp
    then show ?thesis using mono unfolding eq by simp
  qed
  show ?thesis using n 1 2 3 unfolding tree_inv_def by (simp add: eq)
qed

lemma tree_inv_foldl: "tree_inv n s \<Longrightarrow> tree_inv n (foldl (tree_step e ps) s ms)"
  by (induction ms arbitrary: s) (auto simp add: tree_inv_step)

lemma tree_inv_init: "tree_inv (length h) \<lparr> root = [], index = Map.empty, store = h \<rparr>"
  by (auto simp add: tree_inv_def attachments_def)

lemma tree_inv_loop: "tree_inv (length h) (tree_loop h e ps ms)"
  unfolding tree_loop_def by (rule tree_inv_foldl[OF tree_inv_init])

lemma inv_distinct: "tree_inv n s \<Longrightarrow> distinct (attachments n s)"
  using mset_eq_imp_distinct_iff[of "attachments n s" "[n..<length (store s)]"]
  by (simp add: tree_inv_def)

lemma inv_root_range:
  assumes "tree_inv n s" "a \<in> set (root s)"
  shows "n \<le> a \<and> a < length (store s)"
proof -
  have "set (attachments n s) = set [n..<length (store s)]"
    using assms(1) mset_eq_setD unfolding tree_inv_def by blast
  then show ?thesis using assms(2) by (auto simp add: attachments_def)
qed

subsection \<open>The whole loop\<close>



lemma foldl_root_length:
  "length (root (foldl (tree_step e ps) s ms)) \<le> length (root s) + length ms"
proof (induction ms arbitrary: s)
  case Nil
  show ?case by simp
next
  case (Cons m ms)
  show ?case using step_root_length[of e ps s m] Cons[of "tree_step e ps s m"] by simp
qed



text \<open>The objects that were in the store before the loop are not changed.\<close>

lemma foldl_old:
  "tree_inv n s \<Longrightarrow> take n (store (foldl (tree_step e ps) s ms)) = take n (store s)"
proof (induction ms arbitrary: s)
  case Nil
  show ?case by simp
next
  case (Cons m ms)
  have "take n (store (tree_step e ps s m)) = take n (store s)"
  proof (cases rule: tree_step_cases[of e ps m s])
    case (under r p)
    then have "n \<le> p"
      using parent_in_index_ran[of s m p] Cons.prems by (auto simp add: tree_inv_def)
    then show ?thesis using under Cons.prems by (simp add: tree_inv_def)
  qed (use Cons.prems in \<open>simp_all add: tree_inv_def\<close>)
  then show ?case using Cons.IH[OF tree_inv_step[OF Cons.prems]] by simp
qed

text \<open>Every object the loop adds is, but for its submenu, the item rendered for a node.\<close>

lemma new_fields:
  assumes "length h \<le> a" "a < length (store (tree_loop h e ps ms))"
  shows "\<exists>m. renderExtensionMenuItem e ps m =
               Some ((store (tree_loop h e ps ms) ! a) \<lparr> submenu := None \<rparr>)"
  using assms unfolding tree_loop_def
proof (induction ms rule: rev_induct)
  case Nil
  then show ?case by simp
next
  case (snoc m ms)
  let ?s = "foldl (tree_step e ps) \<lparr>root = [], index = Map.empty, store = h\<rparr> ms"
  show ?case
  proof (cases "a < length (store ?s)")
    case True
    then show ?thesis
      using snoc.IH[OF snoc.prems(1) True]
        step_fields[OF True, where e = e and ps = ps and m = m and x = None]
      by simp
  next
    case False
    then have a: "a = length (store ?s)" "renders e ps m"
      using snoc.prems(2) by (auto simp add: step_length split: if_splits)
    then obtain r where r: "renderExtensionMenuItem e ps m = Some r"
      by (auto simp add: renders_def)
    have inv: "tree_inv (length h) ?s" by (rule tree_inv_foldl[OF tree_inv_init])
    have "(store (tree_step e ps ?s m) ! a) \<lparr> submenu := None \<rparr> = r"
    proof (cases rule: tree_step_cases[of e ps m ?s])
      case skip
      then show ?thesis using r by simp
    next
      case (at_root r')
      then show ?thesis using rendered_no_submenu[OF r] a(1) r by simp
    next
      case (under r' p)
      then have "p < length (store ?s)"
        using parent_in_index_ran[of ?s m p] inv by (auto simp add: tree_inv_def)
      then show ?thesis using under rendered_no_submenu[OF r] a(1) r by simp
    qed
    then show ?thesis using r by auto
  qed
qed

subsection \<open>The claims on the tree builder\<close>

text \<open>
  C5. After the loop of \<open>renderExtensionMenuTree\<close>, on whatever store it started, every
  item recorded in the index is reachable from the root list, directly or through
  submenus; the root list and the submenus of the objects the loop added name no
  address twice, so no item is in two submenus, twice in one, or both at the root and
  in a submenu; and the objects that were in the store before are unchanged.
\<close>

theorem C5_index_reachable_and_attached_once:
  "(\<forall>k a. index (tree_loop h e ps ms) k = Some a \<longrightarrow>
        reachable (store (tree_loop h e ps ms)) (root (tree_loop h e ps ms)) a)
   \<and> distinct (attachments (length h) (tree_loop h e ps ms))
   \<and> take (length h) (store (tree_loop h e ps ms)) = h"
proof -
  have inv: "tree_inv (length h) (tree_loop h e ps ms)" by (rule tree_inv_loop)
  have "reachable (store (tree_loop h e ps ms)) (root (tree_loop h e ps ms)) a"
    if "index (tree_loop h e ps ms) k = Some a" for k a
  proof -
    have "a \<in> ran (index (tree_loop h e ps ms))" using that by (auto simp add: ran_def)
    then show ?thesis using inv unfolding tree_inv_def by auto
  qed
  moreover have "take (length h) (store (tree_loop h e ps ms)) = h"
    unfolding tree_loop_def using foldl_old[OF tree_inv_init, of h e ps ms] by simp
  ultimately show ?thesis using inv_distinct[OF inv] by blast
qed

theorem C5_index_reachable_and_attached_once_witness:
  "index (tree_loop [] (str ''ext'') example_params example_nodes_late) (str ''late'') = Some 3
   \<and> reachable (store (tree_loop [] (str ''ext'') example_params example_nodes_late))
        (root (tree_loop [] (str ''ext'') example_params example_nodes_late)) 3
   \<and> root (tree_loop [] (str ''ext'') example_params example_nodes_late) = [0, 1, 2]
   \<and> map submenu (store (tree_loop [] (str ''ext'') example_params example_nodes_late))
        = [None, None, Some [3], None]
   \<and> distinct (attachments 0 (tree_loop [] (str ''ext'') example_params example_nodes_late))"
proof -
  have i: "index (tree_loop [] (str ''ext'') example_params example_nodes_late) (str ''late'')
             = Some 3"
    by (simp add: example_defs constant_defs tree_defs)
  have r: "root (tree_loop [] (str ''ext'') example_params example_nodes_late) = [0, 1, 2]"
    by (simp add: example_defs constant_defs tree_defs)
  have s: "map submenu (store (tree_loop [] (str ''ext'') example_params example_nodes_late))
             = [None, None, Some [3], None]"
    by (simp add: example_defs constant_defs tree_defs)
  show ?thesis
    using i r s
      C5_index_reachable_and_attached_once
        [of "[]" "str ''ext''" example_params example_nodes_late]
    by simp
qed



section \<open>The extension section\<close>

text \<open>
  The body of the loop over the extensions, whatever the template and the store before
  it: one top-level item is pushed itself, with the icon of the extension set on it;
  more than one are pushed as the submenu of one item labelled with the name of the
  extension.
\<close>

lemma extension_step_hoists_or_wraps:
  "(length (fst (renderExtensionMenuTree h eid ps
                   (filter (validContextMenu ps) (contextMenus ext)))) = 1 \<longrightarrow>
      extension_step ps (template, h) (eid, ext) =
        (template @
           [(snd (renderExtensionMenuTree h eid ps
                    (filter (validContextMenu ps) (contextMenus ext)))
               ! hd (fst (renderExtensionMenuTree h eid ps
                            (filter (validContextMenu ps) (contextMenus ext)))))
            \<lparr> icon := Some (CreateFromPath (map_of (icons ext) (str ''16''))) \<rparr>],
         snd (renderExtensionMenuTree h eid ps
                (filter (validContextMenu ps) (contextMenus ext)))))
   \<and> (length (fst (renderExtensionMenuTree h eid ps
                      (filter (validContextMenu ps) (contextMenus ext)))) > 1 \<longrightarrow>
      extension_step ps (template, h) (eid, ext) =
        (template @
           [empty_item \<lparr> label := Some (name ext),
              icon := Some (CreateFromPath (map_of (icons ext) (str ''16''))),
              submenu := Some (fst (renderExtensionMenuTree h eid ps
                                      (filter (validContextMenu ps) (contextMenus ext)))) \<rparr>],
         snd (renderExtensionMenuTree h eid ps
                (filter (validContextMenu ps) (contextMenus ext)))))"
proof -
  let ?valid = "filter (validContextMenu ps) (contextMenus ext)"
  let ?s = "tree_loop h eid ps ?valid"
  have rt: "renderExtensionMenuTree h eid ps ?valid = (root ?s, store ?s)"
    by (simp add: renderExtensionMenuTree_def Let_def)
  have inv: "tree_inv (length h) ?s" by (rule tree_inv_loop)
  have one: "icon (store ?s ! hd (root ?s)) = None" if "length (root ?s) = 1"
  proof -
    have "hd (root ?s) \<in> set (root ?s)" using that by (cases "root ?s") auto
    then have "length h \<le> hd (root ?s)" "hd (root ?s) < length (store ?s)"
      using inv_root_range[OF inv] by auto
    then obtain m where "renderExtensionMenuItem eid ps m =
        Some ((store ?s ! hd (root ?s)) \<lparr> submenu := None \<rparr>)"
      using new_fields by blast
    then have "icon ((store ?s ! hd (root ?s)) \<lparr> submenu := None \<rparr>) = None"
      by (rule rendered_no_icon)
    then show ?thesis by simp
  qed
  have hd0: "root ?s ! 0 = hd (root ?s)" if "length (root ?s) = 1"
    using that by (cases "root ?s") auto
  have many: "length ?valid > 1" if "length (root ?s) > 1"
    using that
      foldl_root_length[of eid ps "\<lparr>root = [], index = Map.empty, store = h\<rparr>" ?valid]
    by (simp add: tree_loop_def)
  show ?thesis
    unfolding rt using one hd0 many
    by (auto simp add: extension_step_def Let_def rt icon_then_spread_def)
qed

text \<open>The template that the loop has built so far is a prefix of the one it returns.\<close>

lemma extension_step_prefix:
  "extension_step ps (template, h) entry =
     (template @ fst (extension_step ps ([], h) entry),
      snd (extension_step ps ([], h) entry))"
  by (simp add: extension_step_def Let_def)

lemma foldl_extension_prefix:
  "foldl (extension_step ps) (template, h) entries =
     (template @ fst (foldl (extension_step ps) ([], h) entries),
      snd (foldl (extension_step ps) ([], h) entries))"
proof (induction entries arbitrary: template h)
  case Nil
  show ?case by simp
next
  case (Cons entry entries)
  let ?one = "extension_step ps ([], h) entry"
  have "foldl (extension_step ps) (template, h) (entry # entries) =
      foldl (extension_step ps) (template @ fst ?one, snd ?one) entries"
    using extension_step_prefix[of ps template h entry] by simp
  also have "\<dots> = ((template @ fst ?one)
        @ fst (foldl (extension_step ps) ([], snd ?one) entries),
      snd (foldl (extension_step ps) ([], snd ?one) entries))"
    by (rule Cons.IH)
  finally have a: "foldl (extension_step ps) (template, h) (entry # entries) =
      ((template @ fst ?one) @ fst (foldl (extension_step ps) ([], snd ?one) entries),
       snd (foldl (extension_step ps) ([], snd ?one) entries))" .
  have "foldl (extension_step ps) ([], h) (entry # entries) =
      foldl (extension_step ps) (fst ?one, snd ?one) entries"
    by simp
  also have "\<dots> = (fst ?one @ fst (foldl (extension_step ps) ([], snd ?one) entries),
      snd (foldl (extension_step ps) ([], snd ?one) entries))"
    by (rule Cons.IH)
  finally have b: "foldl (extension_step ps) ([], h) (entry # entries) =
      (fst ?one @ fst (foldl (extension_step ps) ([], snd ?one) entries),
       snd (foldl (extension_step ps) ([], snd ?one) entries))" .
  show ?case unfolding a b by simp
qed

text \<open>The section of a list of extensions, cut at any place.\<close>

lemma renderExtensionSection_append:
  "renderExtensionSection True ps (xs @ ys) h =
     (fst (renderExtensionSection True ps xs h)
        @ fst (renderExtensionSection True ps ys (snd (renderExtensionSection True ps xs h))),
      snd (renderExtensionSection True ps ys (snd (renderExtensionSection True ps xs h))))"
proof -
  let ?A = "foldl (extension_step ps) ([], h) xs"
  have "foldl (extension_step ps) ([], h) (xs @ ys) =
      foldl (extension_step ps) (fst ?A, snd ?A) ys"
    by simp
  then show ?thesis
    using foldl_extension_prefix[of ps "fst ?A" "snd ?A" ys]
    by (simp add: renderExtensionSection_def)
qed

lemma renderExtensionSection_Cons:
  "renderExtensionSection True ps (entry # ys) h =
     (fst (extension_step ps ([], h) entry)
        @ fst (renderExtensionSection True ps ys (snd (extension_step ps ([], h) entry))),
      snd (renderExtensionSection True ps ys (snd (extension_step ps ([], h) entry))))"
  using renderExtensionSection_append[of ps "[entry]" ys h]
  by (simp add: renderExtensionSection_def)

text \<open>No extension changes an object that was in the store before it.\<close>

lemma extension_step_store:
  "snd (extension_step ps (template, h) (eid, ext)) =
     store (tree_loop h eid ps (filter (validContextMenu ps) (contextMenus ext)))"
  by (simp add: extension_step_def renderExtensionMenuTree_def Let_def)

lemma extension_step_old:
  "length h \<le> length (snd (extension_step ps (template, h) entry))
   \<and> take (length h) (snd (extension_step ps (template, h) entry)) = h"
proof -
  obtain eid ext where entry: "entry = (eid, ext)" by (cases entry)
  let ?s = "tree_loop h eid ps (filter (validContextMenu ps) (contextMenus ext))"
  have "tree_inv (length h) ?s" by (rule tree_inv_loop)
  then have "length h \<le> length (store ?s)" by (simp add: tree_inv_def)
  moreover have "take (length h) (store ?s) = h"
    unfolding tree_loop_def
    using foldl_old[OF tree_inv_init, of h eid ps
        "filter (validContextMenu ps) (contextMenus ext)"]
    by simp
  ultimately show ?thesis unfolding entry extension_step_store by simp
qed

lemma foldl_extension_old:
  "length h \<le> length (snd (foldl (extension_step ps) (template, h) entries))
   \<and> take (length h) (snd (foldl (extension_step ps) (template, h) entries)) = h"
proof (induction entries arbitrary: template h)
  case Nil
  show ?case by simp
next
  case (Cons entry entries)
  let ?t = "fst (extension_step ps (template, h) entry)"
  let ?h = "snd (extension_step ps (template, h) entry)"
  let ?end = "snd (foldl (extension_step ps) (?t, ?h) entries)"
  have one: "length h \<le> length ?h" "take (length h) ?h = h"
    using extension_step_old[of h ps template entry] by simp_all
  have rest: "length ?h \<le> length ?end" "take (length ?h) ?end = ?h"
    using Cons.IH[of ?h ?t] by simp_all
  have "take (length h) (take (length ?h) ?end) = take (length h) ?end"
    using one(1) by (simp add: min_absorb1)
  then have "take (length h) ?end = take (length h) ?h"
    by (simp only: rest(2))
  then have "take (length h) ?end = h" by (simp only: one(2))
  moreover have "length h \<le> length ?end" using one(1) rest(1) by simp
  ultimately show ?case by simp
qed

lemma renderExtensionSection_old:
  "take (length h) (snd (renderExtensionSection True ps entries h)) = h"
  using foldl_extension_old[of h ps "[]" entries] by (simp add: renderExtensionSection_def)

text \<open>
  C6. For every extension of the runtime data, wherever it stands in the list: the
  section that \<open>renderExtensionSection\<close> returns is the section of the extensions
  before it, then what this extension gives, then the section of the extensions after
  it. When the rendered tree of the extension has exactly one top-level item, what it
  gives is that item itself, with the icon of the extension set on it and its submenu
  as it is; when the tree has more than one top-level item, it is one item labelled
  with the name of the extension whose submenu is the whole list of them. The
  extensions after it leave the objects of its tree unchanged.
\<close>

theorem C6_single_item_hoisted_else_wrapped:
  "(let before = renderExtensionSection True ps pre h;
        tree = renderExtensionMenuTree (snd before) eid ps
                 (filter (validContextMenu ps) (contextMenus ext));
        after = renderExtensionSection True ps post (snd tree);
        img = CreateFromPath (map_of (icons ext) (str ''16''))
    in (length (fst tree) = 1 \<longrightarrow>
          renderExtensionSection True ps (pre @ (eid, ext) # post) h =
            (fst before @ [(snd tree ! hd (fst tree)) \<lparr> icon := Some img \<rparr>] @ fst after,
             snd after))
     \<and> (length (fst tree) > 1 \<longrightarrow>
          renderExtensionSection True ps (pre @ (eid, ext) # post) h =
            (fst before
               @ [empty_item \<lparr> label := Some (name ext), icon := Some img,
                                submenu := Some (fst tree) \<rparr>]
               @ fst after,
             snd after))
     \<and> take (length (snd tree)) (snd after) = snd tree)"
proof -
  define before where "before = renderExtensionSection True ps pre h"
  define tree where "tree = renderExtensionMenuTree (snd before) eid ps
                 (filter (validContextMenu ps) (contextMenus ext))"
  define after where "after = renderExtensionSection True ps post (snd tree)"
  define img where "img = CreateFromPath (map_of (icons ext) (str ''16''))"
  let ?one = "extension_step ps ([], snd before) (eid, ext)"
  have st: "snd ?one = snd tree"
    by (simp add: extension_step_def tree_def Let_def)
  have whole: "renderExtensionSection True ps (pre @ (eid, ext) # post) h =
      (fst before @ fst ?one @ fst after, snd after)"
    unfolding renderExtensionSection_append[of ps pre "(eid, ext) # post" h]
      renderExtensionSection_Cons[of ps "(eid, ext)" post] before_def[symmetric] st
      after_def[symmetric]
    by simp
  have hoist: "fst ?one = [(snd tree ! hd (fst tree)) \<lparr> icon := Some img \<rparr>]"
    if "length (fst tree) = 1"
    using that extension_step_hoists_or_wraps[of "snd before" eid ps ext "[]"]
    unfolding tree_def[symmetric] img_def[symmetric] by simp
  have wrap: "fst ?one = [empty_item \<lparr> label := Some (name ext), icon := Some img,
                                submenu := Some (fst tree) \<rparr>]"
    if "length (fst tree) > 1"
    using that extension_step_hoists_or_wraps[of "snd before" eid ps ext "[]"]
    unfolding tree_def[symmetric] img_def[symmetric] by simp
  have old: "take (length (snd tree)) (snd after) = snd tree"
    unfolding after_def by (rule renderExtensionSection_old)
  show ?thesis
    unfolding Let_def before_def[symmetric] tree_def[symmetric] after_def[symmetric]
      img_def[symmetric]
    using whole hoist wrap old by simp
qed

text \<open>
  Two extensions: the first has one node, the second the four nodes above. The section
  has two items: the item of the first, with its icon, and one item named for the
  second whose submenu is the three top-level items of its tree.
\<close>

theorem C6_single_item_hoisted_else_wrapped_witness:
  "length (fst (renderExtensionMenuTree [] (str ''a'') example_params
                  (filter (validContextMenu example_params)
                     (contextMenus (example_extension [example_nodes ! 2]))))) = 1
   \<and> 1 < length (fst (renderExtensionMenuTree
                        (snd (renderExtensionSection True example_params
                                [(str ''a'', example_extension [example_nodes ! 2])] []))
                        (str ''b'') example_params
                        (filter (validContextMenu example_params)
                           (contextMenus (example_extension example_nodes_late)))))
   \<and> map label (fst (renderExtensionSection True example_params
                       [(str ''a'', example_extension [example_nodes ! 2]),
                        (str ''b'', example_extension example_nodes_late)] []))
        = [Some (str ''parent''), Some (str ''Ext'')]
   \<and> map icon (fst (renderExtensionSection True example_params
                      [(str ''a'', example_extension [example_nodes ! 2]),
                       (str ''b'', example_extension example_nodes_late)] []))
        = [Some (CreateFromPath (Some (str ''icon.png''))),
           Some (CreateFromPath (Some (str ''icon.png'')))]
   \<and> map submenu (fst (renderExtensionSection True example_params
                         [(str ''a'', example_extension [example_nodes ! 2]),
                          (str ''b'', example_extension example_nodes_late)] []))
        = [None, Some [1, 2, 3]]
   \<and> map submenu (snd (renderExtensionSection True example_params
                         [(str ''a'', example_extension [example_nodes ! 2]),
                          (str ''b'', example_extension example_nodes_late)] []))
        = [None, None, None, Some [4], None]"
proof -
  let ?a = "(str ''a'', example_extension [example_nodes ! 2])"
  let ?b = "(str ''b'', example_extension example_nodes_late)"
  let ?one = "renderExtensionMenuTree [] (str ''a'') example_params
                (filter (validContextMenu example_params)
                   (contextMenus (example_extension [example_nodes ! 2])))"
  let ?h1 = "snd (renderExtensionSection True example_params [?a] [])"
  let ?many = "renderExtensionMenuTree ?h1 (str ''b'') example_params
                (filter (validContextMenu example_params)
                   (contextMenus (example_extension example_nodes_late)))"
  have one: "fst ?one = [0]" "map label (snd ?one) = [Some (str ''parent'')]"
    "map submenu (snd ?one) = [None]"
    by (simp_all add: renderExtensionMenuTree_def validContextMenu_def example_defs
          constant_defs tree_defs)
  have h1: "?h1 = snd ?one"
    by (simp add: renderExtensionSection_def extension_step_def Let_def)
  have len: "length (snd ?one) = 1" using arg_cong[OF one(2), of length] by simp
  then obtain x where x: "snd ?one = [x]" by (cases "snd ?one") auto
  have xs: "label x = Some (str ''parent'')" "submenu x = None"
    using one(2,3) x by simp_all
  have many: "fst ?many = [1, 2, 3]"
    "map submenu (snd ?many) = [None, None, None, Some [4], None]"
    unfolding h1 x using xs
    by (simp_all add: renderExtensionMenuTree_def validContextMenu_def example_defs
          constant_defs tree_defs)
  have l1: "length (fst ?one) = 1" and l2: "1 < length (fst ?many)"
    using one(1) many(1) by simp_all
  have img: "map_of (icons (example_extension ms)) (str ''16'') = Some (str ''icon.png'')"
    "name (example_extension ms) = str ''Ext''" for ms
    by (simp_all add: example_extension_def str_def)
  have e: "renderExtensionSection True example_params [] h = ([], h)" for h
    by (simp add: renderExtensionSection_def)
  have first: "renderExtensionSection True example_params [?a] [] =
      ([x \<lparr> icon := Some (CreateFromPath (Some (str ''icon.png''))) \<rparr>], [x])"
    using l1 one(1) x img e
      C6_single_item_hoisted_else_wrapped
        [where ps = example_params and pre = "[]" and h = "[]" and eid = "str ''a''"
           and ext = "example_extension [example_nodes ! 2]" and post = "[]"]
    by (simp add: Let_def)
  have both: "renderExtensionSection True example_params [?a, ?b] [] =
      ([x \<lparr> icon := Some (CreateFromPath (Some (str ''icon.png''))) \<rparr>,
        empty_item \<lparr> label := Some (str ''Ext''),
          icon := Some (CreateFromPath (Some (str ''icon.png''))),
          submenu := Some [1, 2, 3] \<rparr>],
       snd ?many)"
    using l2 many(1) img e first
      C6_single_item_hoisted_else_wrapped
        [where ps = example_params and pre = "[?a]" and h = "[]" and eid = "str ''b''"
           and ext = "example_extension example_nodes_late" and post = "[]"]
    by (simp add: Let_def)
  show ?thesis
    using l1 l2 xs many(2) unfolding both by (simp add: empty_item_def)
qed

text \<open>What the filter computes: the page marker plays no part in it.\<close>

lemma validContextMenu_iff:
  "validContextMenu ps m \<longleftrightarrow>
     (CONTEXT_TYPES_ALL \<in> set (contexts m)
      \<or> (isEditable ps \<and> CONTEXT_TYPES_EDITABLE \<in> set (contexts m)))"
  by (simp add: validContextMenu_def js_or_def truthy_def CONTEXT_TYPES_ALL_def str_def)

text \<open>
  C1. The claim is right and the code is not: the argument of the first \<open>has\<close> is
  \<open>CONTEXT_TYPES.ALL || CONTEXT_TYPES.PAGE\<close>, which is the marker \<open>all\<close>, so the
  filter never asks for the marker \<open>page\<close>. A normal node whose contexts are the
  page marker alone is rejected, and the extension section of an extension with this
  one node is empty.
\<close>

theorem C1_page_only_node_is_dropped:
  "js_or CONTEXT_TYPES_ALL CONTEXT_TYPES_PAGE = CONTEXT_TYPES_ALL
   \<and> CONTEXT_TYPES_PAGE
       \<in> set (contexts (example_node ''n'' None ITEM_TYPES_NORMAL [CONTEXT_TYPES_PAGE]))
   \<and> \<not> validContextMenu example_params
         (example_node ''n'' None ITEM_TYPES_NORMAL [CONTEXT_TYPES_PAGE])
   \<and> renders (str ''ext'') example_params
       (example_node ''n'' None ITEM_TYPES_NORMAL [CONTEXT_TYPES_PAGE])
   \<and> renderExtensionSection True example_params
       [(str ''ext'',
         example_extension [example_node ''n'' None ITEM_TYPES_NORMAL [CONTEXT_TYPES_PAGE]])]
       []
     = ([], [])"
  by (simp add: renderExtensionSection_def extension_step_def renderExtensionMenuTree_def
        validContextMenu_def renders_def example_defs constant_defs tree_defs)

section \<open>The registry of bound contents\<close>

lemma deferred_bind_cases:
  "deferred_bind h c r = r \<or>
   (c \<notin> destroyed r \<and> c \<notin> privConnected r \<and>
    deferred_bind h c r =
      r \<lparr> privConnected := insert c (privConnected r),
          contextMenuListeners :=
            (contextMenuListeners r)(c := contextMenuListeners r c + 1),
          destroyedListeners :=
            (destroyedListeners r)(c := destroyedListeners r c + 1) \<rparr>)"
  unfolding deferred_bind_def
  by (cases "c \<in> destroyed r"; cases "c \<in> privConnected r"; cases "hasRootContents h";
      cases "hasBrowserWindow h";
      cases "case waveboxWindow h of None \<Rightarrow> False
             | Some w \<Rightarrow> \<not> rootWebContentsHasContextMenu w \<and> rootWebContentsId w = c")
     (simp_all only: if_True if_False not_True_eq_False not_False_eq_True simp_thms)

lemma deferred_bind_connected: "c \<in> privConnected r \<Longrightarrow> deferred_bind h c r = r"
  unfolding deferred_bind_def by (cases "c \<in> destroyed r") (simp_all only: if_True if_False)

lemma registry_invD:
  assumes "registry_inv r"
  shows "contextMenuListeners r d \<le> 1"
    and "d \<in> privConnected r \<Longrightarrow>
           contextMenuListeners r d = 1 \<and> destroyedListeners r d > 0 \<and> d \<notin> destroyed r"
    and "contextMenuListeners r d = 1 \<Longrightarrow> d \<in> privConnected r \<or> d \<in> destroyed r"
  using assms by (simp_all add: registry_inv_def)

lemma registry_invI:
  assumes "\<And>d. contextMenuListeners r d \<le> 1"
    and "\<And>d. d \<in> privConnected r \<Longrightarrow>
           contextMenuListeners r d = 1 \<and> destroyedListeners r d > 0 \<and> d \<notin> destroyed r"
    and "\<And>d. contextMenuListeners r d = 1 \<Longrightarrow> d \<in> privConnected r \<or> d \<in> destroyed r"
  shows "registry_inv r"
  using assms unfolding registry_inv_def by blast

lemma inv_new: "registry_inv new_registry"
  by (simp add: registry_inv_def new_registry_def)

lemma inv_immediates: "registry_inv (r \<lparr> immediates := q \<rparr>) = registry_inv r"
  by (simp add: registry_inv_def)

text \<open>Binding a live contents that is not connected keeps the invariant.\<close>

lemma inv_bound:
  assumes inv: "registry_inv r" and live: "c \<notin> destroyed r" and new: "c \<notin> privConnected r"
  shows "registry_inv
           (r \<lparr> privConnected := insert c (privConnected r),
               contextMenuListeners :=
                 (contextMenuListeners r)(c := contextMenuListeners r c + 1),
               destroyedListeners :=
                 (destroyedListeners r)(c := destroyedListeners r c + 1) \<rparr>)"
    (is "registry_inv ?r'")
proof (rule registry_invI)
  have zero: "contextMenuListeners r c = 0"
    using registry_invD(1)[OF inv, of c] registry_invD(3)[OF inv, of c] live new
    by linarith
  fix d
  show "contextMenuListeners ?r' d \<le> 1"
    using zero registry_invD(1)[OF inv, of d] by simp
  show "contextMenuListeners ?r' d = 1 \<and> destroyedListeners ?r' d > 0 \<and> d \<notin> destroyed ?r'"
    if "d \<in> privConnected ?r'"
  proof -
    have "d = c \<or> d \<in> privConnected r" using that by simp
    then show ?thesis using zero live registry_invD(2)[OF inv, of d] by auto
  qed
  show "d \<in> privConnected ?r' \<or> d \<in> destroyed ?r'" if "contextMenuListeners ?r' d = 1"
  proof -
    have "d = c \<or> contextMenuListeners r d = 1" using that by (cases "d = c") simp_all
    then show ?thesis using registry_invD(3)[OF inv, of d] by auto
  qed
qed

lemma inv_bind: "registry_inv r \<Longrightarrow> registry_inv (deferred_bind h c r)"
  using deferred_bind_cases[of h c r] inv_bound[of r c] by presburger

lemma inv_destroy:
  assumes inv: "registry_inv r"
  shows "registry_inv (step r (Destroy c))"
proof (cases "c \<in> destroyed r")
  case True
  then show ?thesis using inv by simp
next
  case False
  let ?r' = "r \<lparr> destroyed := insert c (destroyed r),
                 privConnected := (if destroyedListeners r c > 0 then privConnected r - {c}
                                   else privConnected r) \<rparr>"
  have eq: "step r (Destroy c) = ?r'" using False by simp
  have c: "c \<in> privConnected r \<Longrightarrow> destroyedListeners r c > 0"
    using registry_invD(2)[OF inv, of c] by simp
  have "registry_inv ?r'"
  proof (rule registry_invI)
    fix d
    show "contextMenuListeners ?r' d \<le> 1" using registry_invD(1)[OF inv, of d] by simp
    show "contextMenuListeners ?r' d = 1 \<and> destroyedListeners ?r' d > 0 \<and> d \<notin> destroyed ?r'"
      if "d \<in> privConnected ?r'"
      using that c registry_invD(2)[OF inv, of d] by (cases "d = c") (auto split: if_splits)
    show "d \<in> privConnected ?r' \<or> d \<in> destroyed ?r'" if "contextMenuListeners ?r' d = 1"
      using that registry_invD(3)[OF inv, of d] by (cases "d = c") auto
  qed
  then show ?thesis using eq by simp
qed

lemma inv_step:
  assumes inv: "registry_inv r"
  shows "registry_inv (step r ev)"
proof (cases ev)
  case (WebContentsCreated c)
  then show ?thesis using inv by (simp add: handleWebContentsCreated_def inv_immediates)
next
  case (BrowserWindowCreated c)
  then show ?thesis
    using inv
    by (simp add: handleBrowserWindowCreated_def handleWebContentsCreated_def inv_immediates)
next
  case (RunImmediate h)
  show ?thesis
  proof (cases "immediates r")
    case Nil
    then show ?thesis using inv RunImmediate by simp
  next
    case (Cons c rest)
    then show ?thesis using RunImmediate inv by (simp add: inv_bind inv_immediates)
  qed
next
  case (Destroy c)
  then show ?thesis using inv inv_destroy by simp
qed

lemma inv_foldl: "registry_inv r \<Longrightarrow> registry_inv (foldl step r evs)"
  by (induction evs arbitrary: r) (simp_all add: inv_step)

lemma inv_run: "registry_inv (run evs)"
  unfolding run_def by (rule inv_foldl[OF inv_new])

lemma launchMenu_presents:
  "hasRootContents h \<Longrightarrow> hasBrowserWindow h \<Longrightarrow>
     \<exists>t. launchMenu h autofill url url_later ps sections = Inr (Presented t)"
  by (auto simp add: launchMenu_def presentMenu_Inr split: settled.splits)

text \<open>
  C7. Whatever creation events, runs of queued closures and destructions have happened,
  in whatever order and however often for one id: every contents has at most one
  \<open>launchMenu\<close> listener, so one trigger calls \<open>launchMenu\<close> at most once, and exactly
  once for a contents in \<open>privConnected\<close>, a set, which holds an id at most once; the
  closure queued by a later creation event for a connected contents changes nothing;
  and a call of \<open>launchMenu\<close> that finds the root contents and the window presents
  exactly one menu.
\<close>

theorem C7_at_most_one_binding:
  "launchMenu_calls (run evs) c \<le> 1
   \<and> (c \<in> privConnected (run evs) \<longrightarrow> launchMenu_calls (run evs) c = 1)
   \<and> (c \<in> privConnected r \<longrightarrow> deferred_bind h c r = r)
   \<and> (hasRootContents h \<and> hasBrowserWindow h \<longrightarrow>
        (\<exists>t. launchMenu h autofill url url_later ps sections = Inr (Presented t)))"
  using registry_invD(1)[OF inv_run, of evs c] registry_invD(2)[OF inv_run, of c evs]
    deferred_bind_connected[of c r h]
    launchMenu_presents[of h autofill url url_later ps sections]
  by (simp add: launchMenu_calls_def)

text \<open>
  Both creation events are delivered for the contents 7 before either queued closure
  runs: the first closure binds, the second does nothing, and one trigger calls
  \<open>launchMenu\<close> once.
\<close>

theorem C7_at_most_one_binding_witness:
  "7 \<in> privConnected (run [WebContentsCreated 7, BrowserWindowCreated 7,
                            RunImmediate example_host, RunImmediate example_host])
   \<and> launchMenu_calls (run [WebContentsCreated 7, BrowserWindowCreated 7,
                             RunImmediate example_host, RunImmediate example_host]) 7 = 1
   \<and> run [WebContentsCreated 7, BrowserWindowCreated 7,
           RunImmediate example_host, RunImmediate example_host]
      = run [WebContentsCreated 7, RunImmediate example_host]
   \<and> hasRootContents example_host \<and> hasBrowserWindow example_host
   \<and> (\<exists>t. launchMenu example_host (example_autofill Rejected) (str ''http://a.b/'')
              (str ''http://a.b/'') example_params [Section [example_item ''Reload'']]
            = Inr (Presented t))"
proof -
  let ?evs = "[WebContentsCreated 7, BrowserWindowCreated 7,
               RunImmediate example_host, RunImmediate example_host]"
  have r1: "run [WebContentsCreated 7, RunImmediate example_host]
      = new_registry \<lparr> privConnected := {7},
          contextMenuListeners := (\<lambda>c. 0)(7 := 1), destroyedListeners := (\<lambda>c. 0)(7 := 1) \<rparr>"
    by (simp add: run_def handleWebContentsCreated_def deferred_bind_def new_registry_def
          example_host_def)
  have r2: "run ?evs
      = new_registry \<lparr> privConnected := {7},
          contextMenuListeners := (\<lambda>c. 0)(7 := 1), destroyedListeners := (\<lambda>c. 0)(7 := 1) \<rparr>"
    by (simp add: run_def handleWebContentsCreated_def handleBrowserWindowCreated_def
          deferred_bind_def new_registry_def example_host_def)
  have c: "7 \<in> privConnected (run ?evs)" unfolding r2 by simp
  have h: "hasRootContents example_host \<and> hasBrowserWindow example_host"
    by (simp add: example_host_def)
  show ?thesis
    using c h r1 r2
      C7_at_most_one_binding
        [where evs = ?evs and c = 7 and h = example_host
           and autofill = "example_autofill Rejected" and url = "str ''http://a.b/''"
           and url_later = "str ''http://a.b/''" and ps = example_params
           and sections = "[Section [example_item ''Reload'']]"]
    by simp
qed

end
